theory Spec2Isabelle
  imports Main
begin

section \<open>Python strings\<close>

text \<open>
  A Python \<open>str\<close> is modelled as a \<open>string\<close> whose characters are the code points
  below 256; \<open>len\<close> is \<open>length\<close>. The functions of this section are the methods of
  \<open>str\<close>, of \<open>os.path\<close> (POSIX flavour) and of \<open>datetime\<close> that the two source
  files call, written after the behaviour of CPython 3.
\<close>

definition py_isspace :: "char \<Rightarrow> bool" where
  \<comment> \<open>\<open>str.isspace\<close> on one character; also the class \<open>\s\<close> of \<open>re\<close>.\<close>
  "py_isspace c =
     (let n = (of_char c :: nat)
      in (9 \<le> n \<and> n \<le> 13) \<or> (28 \<le> n \<and> n \<le> 32) \<or> n = 133 \<or> n = 160)"

definition py_isdigit :: "char \<Rightarrow> bool" where
  \<comment> \<open>The class \<open>\d\<close> of \<open>re\<close>: the decimal digits.\<close>
  "py_isdigit c = (let n = (of_char c :: nat) in 48 \<le> n \<and> n \<le> 57)"

definition py_lower_char :: "char \<Rightarrow> char" where
  "py_lower_char c =
     (let n = (of_char c :: nat)
      in if (65 \<le> n \<and> n \<le> 90) \<or> (192 \<le> n \<and> n \<le> 222 \<and> n \<noteq> 215)
         then char_of (n + 32) else c)"

definition py_lower :: "string \<Rightarrow> string" where
  "py_lower s = map py_lower_char s"

definition py_strip :: "string \<Rightarrow> string" where
  "py_strip s = rev (dropWhile py_isspace (rev (dropWhile py_isspace s)))"

definition startswith :: "string \<Rightarrow> string \<Rightarrow> bool" where
  \<comment> \<open>\<open>s.startswith(p)\<close>\<close>
  "startswith s p = (take (length p) s = p)"

definition endswith :: "string \<Rightarrow> string \<Rightarrow> bool" where
  \<comment> \<open>\<open>s.endswith(p)\<close>\<close>
  "endswith s p = (length p \<le> length s \<and> drop (length s - length p) s = p)"

fun py_in :: "string \<Rightarrow> string \<Rightarrow> bool" where
  \<comment> \<open>\<open>sub in s\<close>\<close>
  "py_in sub [] = (sub = [])"
| "py_in sub (c # cs) = (startswith (c # cs) sub \<or> py_in sub cs)"

fun py_replace :: "string \<Rightarrow> string \<Rightarrow> string \<Rightarrow> string" where
  \<comment> \<open>\<open>s.replace(old, new)\<close> for a non-empty \<open>old\<close>: every occurrence, left to right,
      without overlap.\<close>
  "py_replace old new [] = []"
| "py_replace old new (c # cs) =
     (if startswith (c # cs) old
      then new @ py_replace old new (drop (length old - 1) cs)
      else c # py_replace old new cs)"

fun py_split_from :: "string \<Rightarrow> string \<Rightarrow> string \<Rightarrow> string list" where
  "py_split_from sep cur [] = [cur]"
| "py_split_from sep cur (c # cs) =
     (if startswith (c # cs) sep
      then cur # py_split_from sep [] (drop (length sep - 1) cs)
      else py_split_from sep (cur @ [c]) cs)"

definition py_split :: "string \<Rightarrow> string \<Rightarrow> string list" where
  \<comment> \<open>\<open>s.split(sep)\<close> for a non-empty \<open>sep\<close>\<close>
  "py_split s sep = py_split_from sep [] s"

definition py_rfind :: "string \<Rightarrow> char \<Rightarrow> int" where
  \<comment> \<open>\<open>s.rfind(c)\<close>: the last index of \<open>c\<close>, or -1.\<close>
  "py_rfind s c =
     (if c \<in> set s
      then int (length s) - 1 - int (length (takeWhile (\<lambda>x. x \<noteq> c) (rev s)))
      else - 1)"

definition splitext :: "string \<Rightarrow> string \<times> string" where
  \<comment> \<open>\<open>os.path.splitext\<close> of \<open>posixpath\<close>: the extension starts at the last dot after
      the last slash, unless only dots stand between the slash and that dot.\<close>
  "splitext p =
     (let sepIndex = py_rfind p (CHR ''/'');
          dotIndex = py_rfind p (CHR ''.'')
      in if dotIndex > sepIndex \<and>
            list_ex (\<lambda>c. c \<noteq> CHR ''.'')
              (take (nat (dotIndex - (sepIndex + 1))) (drop (nat (sepIndex + 1)) p))
         then (take (nat dotIndex) p, drop (nat dotIndex) p)
         else (p, []))"

definition digit_char :: "nat \<Rightarrow> char" where
  "digit_char d = ''0123456789'' ! (d mod 10)"

function decimal :: "nat \<Rightarrow> string" where
  "decimal n = (if n < 10 then [digit_char n] else decimal (n div 10) @ [digit_char n])"
  by pat_completeness auto
termination
  by (relation "measure id") auto

declare decimal.simps [simp del]

definition zero_pad :: "nat \<Rightarrow> nat \<Rightarrow> string" where
  \<comment> \<open>The format \<open>%0wd\<close>\<close>
  "zero_pad w n = replicate (w - length (decimal n)) (CHR ''0'') @ decimal n"

record datetime =
  year :: nat
  month :: nat
  day :: nat
  hour :: nat
  minute :: nat
  second :: nat
  microsecond :: nat

definition isoformat_naive :: "datetime \<Rightarrow> string" where
  \<comment> \<open>date and time of \<open>dt.isoformat()\<close>; the microseconds appear when they are not 0\<close>
  "isoformat_naive dt =
     zero_pad 4 (year dt) @ ''-'' @ zero_pad 2 (month dt) @ ''-'' @ zero_pad 2 (day dt)
     @ ''T'' @ zero_pad 2 (hour dt) @ '':'' @ zero_pad 2 (minute dt)
     @ '':'' @ zero_pad 2 (second dt)
     @ (if microsecond dt \<noteq> 0 then ''.'' @ zero_pad 6 (microsecond dt) else [])"

definition isoformat_utc :: "datetime \<Rightarrow> string" where
  \<comment> \<open>\<open>dt.isoformat()\<close> for a \<open>dt\<close> whose \<open>tzinfo\<close> is \<open>timezone.utc\<close>\<close>
  "isoformat_utc dt = isoformat_naive dt @ ''+00:00''"

section \<open>The world outside the process\<close>

text \<open>
  The network, the clock and the file system are a \<open>world\<close>. Every HTTP request and
  every \<open>time.sleep\<close> is appended to the world's \<open>trace\<close>; what a server answers, and
  what the clock shows, may depend on everything that happened before. Console output
  is not modelled.
\<close>

type_synonym headers = "(string \<times> string) list"

type_synonym blob = "(string \<times> string) list"
  \<comment> \<open>the JSON object \<open>data['blob']\<close>; Python takes the empty object for false\<close>

record record_ref =
  uri :: string
  cid :: string

record reply_link =
  root :: record_ref
  parent :: record_ref

record image =
  alt :: string
  image_blob :: blob

record embed =
  embed_type :: string
  images :: "image list"

record post_record =
  rec_type :: string
  rec_text :: string
  rec_createdAt :: string
  rec_reply :: "reply_link option"
  rec_embed :: "embed option"

record payload =
  repo :: "string option"
  collection :: string
  rec :: post_record

datatype 'a response =
    Conn_error \<comment> \<open>\<open>requests.post\<close> raises\<close>
  | Http nat "'a option" \<comment> \<open>status code, and the body when \<open>response.json()\<close> returns\<close>

datatype file_state = Absent | Unreadable | Readable string

datatype event =
    Ev_create string headers payload "(string \<times> string) list response"
  | Ev_upload string headers string "(string \<times> blob) list response"
  | Ev_llm string string string "string response"
  | Ev_sleep nat

record world =
  trace :: "event list"
  clock :: "event list \<Rightarrow> datetime"
  files :: "string \<Rightarrow> file_state"
  create_srv :: "event list \<Rightarrow> string \<Rightarrow> headers \<Rightarrow> payload \<Rightarrow> (string \<times> string) list response"
  upload_srv :: "event list \<Rightarrow> string \<Rightarrow> headers \<Rightarrow> string \<Rightarrow> (string \<times> blob) list response"
  llm_srv :: "event list \<Rightarrow> string \<Rightarrow> string \<Rightarrow> string \<Rightarrow> string response"

definition emit :: "event \<Rightarrow> world \<Rightarrow> world" where
  "emit e w = w\<lparr>trace := trace w @ [e]\<rparr>"

definition sleep :: "nat \<Rightarrow> world \<Rightarrow> world" where
  \<comment> \<open>\<open>time.sleep(n)\<close>\<close>
  "sleep n w = emit (Ev_sleep n) w"

definition new_events :: "world \<Rightarrow> world \<Rightarrow> event list" where
  \<comment> \<open>what a call that led from \<open>w\<close> to \<open>w'\<close> added to the trace\<close>
  "new_events w w' = drop (length (trace w)) (trace w')"

section \<open>bluesky\_publisher.py\<close>

text \<open>
  The publisher object is a record of its attributes; \<open>session\<close> is the JSON object
  that \<open>authenticate\<close> stored, absent when authentication failed. Every method takes the
  world and returns it with the result. A method that catches every exception returns
  \<open>None\<close> where the source does; \<open>uri\<close> and \<open>cid\<close> in a server's answer are strings.
\<close>

datatype py_error = TypeError | KeyError | IndexError

record publisher =
  handle :: string
  app_password :: string
  session :: "(string \<times> string) list option"
  did :: "string option"
  api_url :: string

definition get_headers :: "publisher \<Rightarrow> py_error + headers" where
  \<comment> \<open>\<open>_get_headers\<close>: \<open>self.session["accessJwt"]\<close> raises when there is no session
      or no such key.\<close>
  "get_headers pub =
     (case session pub of
        None \<Rightarrow> Inl TypeError
      | Some sess \<Rightarrow>
          (case map_of sess ''accessJwt'' of
             None \<Rightarrow> Inl KeyError
           | Some tok \<Rightarrow>
               Inr [(''Authorization'', ''Bearer '' @ tok),
                    (''Content-Type'', ''application/json'')]))"

definition created_at :: "datetime \<Rightarrow> string" where
  \<comment> \<open>\<open>datetime.now(timezone.utc).isoformat().replace('+00:00', 'Z')\<close>\<close>
  "created_at now = py_replace ''+00:00'' ''Z'' (isoformat_utc now)"

definition build_record ::
  "string \<Rightarrow> reply_link option \<Rightarrow> blob option \<Rightarrow> datetime \<Rightarrow> post_record" where
  \<comment> \<open>The \<open>record\<close> dictionary of \<open>create_post\<close>. \<open>if reply_to:\<close> holds for every
      reply link, a dictionary of two keys; \<open>if image_blob:\<close> fails for an empty blob.\<close>
  "build_record text reply_to img now =
     \<lparr> rec_type = ''app.bsky.feed.post'',
       rec_text = text,
       rec_createdAt = created_at now,
       rec_reply = reply_to,
       rec_embed =
         (case img of
            None \<Rightarrow> None
          | Some b \<Rightarrow>
              if b \<noteq> []
              then Some \<lparr> embed_type = ''app.bsky.embed.images'',
                          images = [\<lparr> alt = [], image_blob = b \<rparr>] \<rparr>
              else None) \<rparr>"

definition created_ref :: "(string \<times> string) list response \<Rightarrow> record_ref option" where
  \<comment> \<open>What \<open>create_post\<close> makes of the server's answer: status 200 and a body with
      \<open>uri\<close> and \<open>cid\<close>, else \<open>None\<close> (a missing key raises inside the \<open>try\<close>).\<close>
  "created_ref rsp =
     (case rsp of
        Conn_error \<Rightarrow> None
      | Http st body \<Rightarrow>
          if st = 200
          then (case body of
                  None \<Rightarrow> None
                | Some data \<Rightarrow>
                    (case map_of data ''uri'' of
                       None \<Rightarrow> None
                     | Some u \<Rightarrow>
                         (case map_of data ''cid'' of
                            None \<Rightarrow> None
                          | Some c \<Rightarrow> Some \<lparr> uri = u, cid = c \<rparr>)))
          else None)"

definition create_post ::
  "publisher \<Rightarrow> string \<Rightarrow> reply_link option \<Rightarrow> blob option \<Rightarrow> world
     \<Rightarrow> record_ref option \<times> world" where
  "create_post pub text reply_to img w =
     (let url = api_url pub @ ''/com.atproto.repo.createRecord'';
          record = build_record text reply_to img (clock w (trace w));
          pl = \<lparr> repo = did pub, collection = ''app.bsky.feed.post'', rec = record \<rparr>
      in case get_headers pub of
           Inl e \<Rightarrow> (None, w)
         | Inr hs \<Rightarrow>
             (let rsp = create_srv w (trace w) url hs pl
              in (created_ref rsp, emit (Ev_create url hs pl rsp) w)))"

definition mimetypes :: "(string \<times> string) list" where
  "mimetypes =
     [(''.jpg'', ''image/jpeg''),
      (''.jpeg'', ''image/jpeg''),
      (''.png'', ''image/png''),
      (''.gif'', ''image/gif''),
      (''.webp'', ''image/webp'')]"

definition mimetype_of :: "string \<Rightarrow> string" where
  \<comment> \<open>lines 217 to 225 of \<open>upload_image\<close>\<close>
  "mimetype_of image_path =
     (let ext = py_lower (snd (splitext image_path))
      in case map_of mimetypes ext of Some m \<Rightarrow> m | None \<Rightarrow> ''image/jpeg'')"

definition uploaded_blob :: "(string \<times> blob) list response \<Rightarrow> blob option" where
  "uploaded_blob rsp =
     (case rsp of
        Conn_error \<Rightarrow> None
      | Http st body \<Rightarrow>
          if st = 200
          then (case body of None \<Rightarrow> None | Some data \<Rightarrow> map_of data ''blob'')
          else None)"

definition upload_image :: "publisher \<Rightarrow> string \<Rightarrow> world \<Rightarrow> blob option \<times> world" where
  "upload_image pub image_path w =
     (if files w image_path = Absent then (None, w)
      else
        (let url = api_url pub @ ''/com.atproto.repo.uploadBlob'';
             mimetype = mimetype_of image_path
         in case files w image_path of
              Absent \<Rightarrow> (None, w)
            | Unreadable \<Rightarrow> (None, w)
            | Readable image_data \<Rightarrow>
                (case session pub of
                   None \<Rightarrow> (None, w)
                 | Some sess \<Rightarrow>
                     (case map_of sess ''accessJwt'' of
                        None \<Rightarrow> (None, w)
                      | Some tok \<Rightarrow>
                          (let hs = [(''Authorization'', ''Bearer '' @ tok),
                                     (''Content-Type'', mimetype)];
                               rsp = upload_srv w (trace w) url hs image_data
                           in (uploaded_blob rsp,
                               emit (Ev_upload url hs image_data rsp) w))))))"

fun thread_loop ::
  "publisher \<Rightarrow> nat \<Rightarrow> blob option \<Rightarrow> (nat \<times> string) list \<Rightarrow> record_ref list
     \<Rightarrow> reply_link option \<Rightarrow> world \<Rightarrow> record_ref list \<times> world" where
  \<comment> \<open>The \<open>for\<close> loop of \<open>post_thread\<close> over what is left of \<open>enumerate(posts, 1)\<close>;
      \<open>n\<close> is \<open>len(posts)\<close>.\<close>
  "thread_loop pub n blob [] posted reply_ref w = (posted, w)"
| "thread_loop pub n blob ((idx, text) # rest) posted reply_ref w =
     (let img = (if idx = 1 then blob else None);
          (result, w1) = create_post pub text reply_ref img w
      in case result of
           Some r \<Rightarrow>
             (let posted' = posted @ [r];
                  reply_ref' = Some \<lparr> root = \<lparr> uri = uri (posted' ! 0), cid = cid (posted' ! 0) \<rparr>,
                                      parent = \<lparr> uri = uri r, cid = cid r \<rparr> \<rparr>;
                  w2 = (if idx < n then sleep 2 w1 else w1)
              in thread_loop pub n blob rest posted' reply_ref' w2)
         | None \<Rightarrow> (posted, w1))"

definition post_thread ::
  "publisher \<Rightarrow> string list \<Rightarrow> string option \<Rightarrow> world \<Rightarrow> record_ref list option \<times> world" where
  "post_thread pub posts image_path w =
     (if posts = [] then (None, w)
      else
        (let (blob, w1) =
               (case image_path of
                  None \<Rightarrow> (None, w)
                | Some p \<Rightarrow> if p \<noteq> [] then upload_image pub p w else (None, w));
             (posted, w2) = thread_loop pub (length posts) blob (enumerate 1 posts) [] None w1
         in if length posted = length posts then (Some posted, w2)
            else (if posted \<noteq> [] then Some posted else None, w2)))"

section \<open>bluesky\_thread\_generator.py\<close>

text \<open>
  The generator object is a record of the attributes that change or are read by key;
  the dictionary \<open>providers\<close> is the list of its items. A call of a provider is logged
  with the provider's name, the API key and the prompt; the fixed parts of the request
  (URL, model, system message, temperature) are left out of the event. The text that
  the caller reads from a 200 answer is a \<open>str\<close>, as the return annotations say.
  \<open>generate_thread\<close> does not catch \<open>IndexError\<close> or \<open>KeyError\<close>, so its result is a
  sum with the exception on the left.
\<close>

definition prompt_head :: string where
  \<open>prompt_head = ''Create an engaging Bluesky thread about: "''\<close>

definition prompt_tail :: string where
  \<open>prompt_tail =
     ''"\<newline>''
     @ ''\<newline>''
     @ ''**BLUESKY THREAD REQUIREMENTS:**\<newline>''
     @ ''\<newline>''
     @ ''1. **Thread Structure (5-7 posts):**\<newline>''
     @ ''   - Post 1: Hook that grabs attention (question, bold claim, story opener)\<newline>''
     @ ''   - Posts 2-5: Valuable content, insights, tips, or story progression\<newline>''
     @ ''   - Post 6-7: Strong conclusion + engagement question\<newline>''
     @ ''\<newline>''
     @ ''2. **Each Post Must:**\<newline>''
     @ ''   - Be 200-280 characters (Bluesky limit: 300, but 200-280 is optimal)\<newline>''
     @ ''   - Start strong (no filler words like "so", "well", "just")\<newline>''
     @ ''   - Use line breaks for readability\<newline>''
     @ ''   - Feel conversational and authentic\<newline>''
     @ ''   - Be self-contained (make sense if read alone)\<newline>''
     @ ''\<newline>''
     @ ''3. **Engagement Tactics:**\<newline>''
     @ ''   - Use numbers and specifics ("saved $847" vs "saved money")\<newline>''
     @ ''   - Share personal experience or lessons learned\<newline>''
     @ ''   - Create curiosity gaps ("Here's what happened next...")\<newline>''
     @ ''   - Ask questions to spark replies\<newline>''
     @ ''   - Use power words (proven, mistake, secret, transform, realized)\<newline>''
     @ ''   - Add vulnerability (makes it relatable)\<newline>''
     @ ''\<newline>''
     @ ''4. **Bluesky Culture:**\<newline>''
     @ ''   - More conversational than Twitter\<newline>''
     @ ''   - Less corporate, more authentic\<newline>''
     @ ''   - Community-focused (not just broadcasting)\<newline>''
     @ ''   - Thoughtful and substantive (not just hot takes)\<newline>''
     @ ''   - Supportive tone (Bluesky users value kindness)\<newline>''
     @ ''\<newline>''
     @ ''5. **Format:**\<newline>''
     @ ''   - Number each post (1/7, 2/7, etc.)\<newline>''
     @ ''   - No hashtags (Bluesky doesn't use them much)\<newline>''
     @ ''   - Emojis okay if natural (1-2 per post max)\<newline>''
     @ ''   - Use @ mentions sparingly\<newline>''
     @ ''\<newline>''
     @ ''6. **Content Quality:**\<newline>''
     @ ''   - Teach something useful\<newline>''
     @ ''   - Share genuine insights\<newline>''
     @ ''   - Be specific with examples\<newline>''
     @ ''   - Show your personality\<newline>''
     @ ''   - Value > promotion\<newline>''
     @ ''\<newline>''
     @ ''**OUTPUT FORMAT:**\<newline>''
     @ ''Return each post separated by "---"\<newline>''
     @ ''\<newline>''
     @ ''Example:\<newline>''
     @ ''Post 1 text here (1/5)\<newline>''
     @ ''---\<newline>''
     @ ''Post 2 text here (2/5)\<newline>''
     @ ''---\<newline>''
     @ ''etc.\<newline>''
     @ ''\<newline>''
     @ ''Write the thread now (5-7 posts):''\<close>

definition create_thread_prompt :: "string \<Rightarrow> string" where
  "create_thread_prompt topic = prompt_head @ topic @ prompt_tail"

record generator =
  providers :: "(string \<times> string) list"
  provider_list :: "string list"
  current_index :: nat

definition init_generator :: "(string \<times> string) list \<Rightarrow> generator" where
  \<comment> \<open>\<open>__init__\<close>; the dictionary \<open>providers\<close> is its list of items, keys distinct\<close>
  "init_generator ps = \<lparr> providers = ps, provider_list = map fst ps, current_index = 0 \<rparr>"

definition llm_content :: "string response \<Rightarrow> string option" where
  \<comment> \<open>The body of a 200 answer is the text at the path the caller reads
      (\<open>['choices'][0]['message']['content']\<close> for Groq), absent when reading it raises.\<close>
  "llm_content rsp =
     (case rsp of Conn_error \<Rightarrow> None | Http st body \<Rightarrow> if st = 200 then body else None)"

definition call_groq :: "generator \<Rightarrow> string \<Rightarrow> world \<Rightarrow> (py_error + string option) \<times> world" where
  \<comment> \<open>\<open>self.providers["groq"]\<close> is read before the \<open>try\<close>: a missing key raises.\<close>
  "call_groq g prompt w =
     (case map_of (providers g) ''groq'' of
        None \<Rightarrow> (Inl KeyError, w)
      | Some key \<Rightarrow>
          (let rsp = llm_srv w (trace w) ''groq'' key prompt
           in (Inr (llm_content rsp), emit (Ev_llm ''groq'' key prompt rsp) w)))"

definition call_gemini :: "generator \<Rightarrow> string \<Rightarrow> world \<Rightarrow> (py_error + string option) \<times> world" where
  "call_gemini g prompt w =
     (case map_of (providers g) ''gemini'' of
        None \<Rightarrow> (Inl KeyError, w)
      | Some key \<Rightarrow>
          (let rsp = llm_srv w (trace w) ''gemini'' key prompt
           in (Inr (llm_content rsp), emit (Ev_llm ''gemini'' key prompt rsp) w)))"

definition number_line_match :: "string \<Rightarrow> nat option" where
  \<comment> \<open>The length of the match of \<open>\n\s*\d+/\d+\s*\n\<close> at the start of \<open>s\<close>, if there is
      one. The classes \<open>\s\<close> and \<open>\d\<close> are disjoint and neither holds \<open>/\<close>, so the first
      three repetitions take all they can; the last \<open>\s*\<close> gives back what follows the
      last line feed of its run.\<close>
  "number_line_match s =
     (case s of
        [] \<Rightarrow> None
      | c # r0 \<Rightarrow>
          if c \<noteq> CHR ''\<newline>'' then None
          else
            (let ws1 = takeWhile py_isspace r0;
                 r1 = dropWhile py_isspace r0;
                 d1 = takeWhile py_isdigit r1;
                 r2 = dropWhile py_isdigit r1
             in if d1 = [] then None
                else
                  (case r2 of
                     [] \<Rightarrow> None
                   | sl # r3 \<Rightarrow>
                       if sl \<noteq> CHR ''/'' then None
                       else
                         (let d2 = takeWhile py_isdigit r3;
                              r4 = dropWhile py_isdigit r3;
                              ws2 = takeWhile py_isspace r4;
                              upto_nl = rev (dropWhile (\<lambda>x. x \<noteq> CHR ''\<newline>'') (rev ws2))
                          in if d2 = [] \<or> upto_nl = [] then None
                             else Some (1 + length ws1 + length d1 + 1 + length d2
                                        + length upto_nl)))))"

fun re_split_from :: "string \<Rightarrow> string \<Rightarrow> string list" where
  "re_split_from cur [] = [cur]"
| "re_split_from cur (c # cs) =
     (case number_line_match (c # cs) of
        Some m \<Rightarrow> cur # re_split_from [] (drop (m - 1) cs)
      | None \<Rightarrow> re_split_from (cur @ [c]) cs)"

definition re_split_numbers :: "string \<Rightarrow> string list" where
  \<comment> \<open>\<open>re.split(r'\n\s*\d+/\d+\s*\n', content)\<close>\<close>
  "re_split_numbers content = re_split_from [] content"

definition strip_prefix :: "string \<Rightarrow> string \<Rightarrow> string" where
  \<comment> \<open>one round of the loop over \<open>prefixes\<close>\<close>
  "strip_prefix content prefix =
     (if startswith (py_lower content) (py_lower prefix)
      then py_strip (drop (length prefix) content)
      else content)"

definition clean_post :: "string \<Rightarrow> string" where
  \<comment> \<open>lines 221 to 224: strip, then drop a pair of enclosing double quotes\<close>
  \<open>clean_post post =
     (let p = py_strip post
      in if startswith p ''"'' \<and> endswith p ''"'' then butlast (tl p) else p)\<close>

definition parse_thread :: "string \<Rightarrow> string list" where
  "parse_thread content0 =
     (let prefixes = [''Here's the thread:'', ''Here are the posts:'', ''Thread:''];
          content = foldl strip_prefix content0 prefixes;
          posts =
            (if py_in ''---'' content then py_split content ''---''
             else if py_in ''\<newline>\<newline>\<newline>'' content
               then py_split content ''\<newline>\<newline>\<newline>''
             else map py_strip (filter (\<lambda>p. py_strip p \<noteq> []) (re_split_numbers content)))
      in filter (\<lambda>post. post \<noteq> [] \<and> length post \<le> 300) (map clean_post posts))"

definition try_provider ::
  "generator \<Rightarrow> string \<Rightarrow> world \<Rightarrow> (py_error + string list option) \<times> world" where
  \<comment> \<open>Lines 176 to 190, one round of the loop of \<open>generate_thread\<close> up to its
      \<open>return posts\<close>: \<open>Inr (Some posts)\<close> when it returns, \<open>Inr None\<close> when it goes on.\<close>
  "try_provider g prompt w =
     (if length (provider_list g) \<le> current_index g then (Inl IndexError, w)
      else
        (let provider = provider_list g ! current_index g;
             (r, w1) =
               (if provider = ''groq'' then call_groq g prompt w
                else if provider = ''gemini'' then call_gemini g prompt w
                else (Inr None, w))
         in case r of
              Inl e \<Rightarrow> (Inl e, w1)
            | Inr None \<Rightarrow> (Inr None, w1)
            | Inr (Some content) \<Rightarrow>
                if content \<noteq> []
                then (let posts = parse_thread content
                      in if posts \<noteq> [] \<and> 3 \<le> length posts then (Inr (Some posts), w1)
                         else (Inr None, w1))
                else (Inr None, w1)))"

function generate_loop ::
  "string \<Rightarrow> int \<Rightarrow> nat \<Rightarrow> generator \<Rightarrow> world
     \<Rightarrow> (py_error + string list option) \<times> generator \<times> world" where
  "generate_loop prompt retry_count attempts g w =
     (if int attempts < retry_count \<and> attempts < length (provider_list g)
      then
        (case try_provider g prompt w of
           (Inl e, w1) \<Rightarrow> (Inl e, g, w1)
         | (Inr (Some posts), w1) \<Rightarrow> (Inr (Some posts), g, w1)
         | (Inr None, w1) \<Rightarrow>
             generate_loop prompt retry_count (attempts + 1)
               (g\<lparr>current_index := (current_index g + 1) mod length (provider_list g)\<rparr>)
               (sleep 1 w1))
      else (Inr None, g, w))"
  by pat_completeness auto
termination
  by (relation "measure (\<lambda>(prompt, retry_count, attempts, g, w). length (provider_list g) - attempts)")
     auto

declare generate_loop.simps [simp del]

definition generate_thread ::
  "generator \<Rightarrow> string \<Rightarrow> int \<Rightarrow> world \<Rightarrow> (py_error + string list option) \<times> generator \<times> world" where
  "generate_thread g topic retry_count w =
     generate_loop (create_thread_prompt topic) retry_count 0 g w"

definition wf_generator :: "generator \<Rightarrow> bool" where
  \<comment> \<open>what \<open>__init__\<close> establishes and \<open>generate_thread\<close> keeps\<close>
  "wf_generator g =
     (provider_list g = map fst (providers g) \<and>
      (provider_list g = [] \<or> current_index g < length (provider_list g)))"

section \<open>Observations and test fixtures\<close>

text \<open>
  The properties are stated on what a call leaves in the trace and on the calls of
  \<open>create_post\<close> it makes. The functions of this section read the trace, or follow the
  publishing loop and list its calls; none of them is part of the program. The publisher and the
  world at the end are the ones of the scenarios: three posts that all succeed, a
  failing upload, a create request that fails in the middle, an empty thread.
\<close>

fun create_attempts :: "event list \<Rightarrow> (post_record \<times> record_ref option) list" where
  \<comment> \<open>the create requests of a trace, in order: the record sent and what \<open>create_post\<close>
      returned for the answer\<close>
  "create_attempts [] = []"
| "create_attempts (Ev_create url hs pl rsp # es) = (rec pl, created_ref rsp) # create_attempts es"
| "create_attempts (e # es) = create_attempts es"

fun link_of :: "record_ref list \<Rightarrow> reply_link option" where
  \<comment> \<open>the reply link that belongs to the next post after the posts \<open>ps\<close>\<close>
  "link_of [] = None"
| "link_of (p # ps) = Some \<lparr> root = p, parent = last (p # ps) \<rparr>"

definition loop_obs ::
  "publisher \<Rightarrow> nat \<Rightarrow> blob option \<Rightarrow> string list \<Rightarrow> record_ref list \<Rightarrow> record_ref list
     \<Rightarrow> (post_record \<times> record_ref option) list \<Rightarrow> bool" where
  \<comment> \<open>The invariant of the publishing loop, used in the proofs: the loop started at
      index \<open>k\<close> over the texts \<open>xs\<close> with \<open>posted\<close> already created, it created \<open>news\<close>
      and sent the requests \<open>atts\<close>.\<close>
  "loop_obs pub k blob xs posted news atts =
     (length news \<le> length xs \<and>
      (map snd atts = map Some news \<or>
       (length news < length xs \<and> map snd atts = map Some news @ [None])) \<and>
      (length news < length xs \<longrightarrow> (\<forall>hs. get_headers pub = Inr hs \<longrightarrow>
          map snd atts = map Some news @ [None])) \<and>
      map (rec_text \<circ> fst) atts = take (length atts) xs \<and>
      (\<forall>j < length atts.
          rec_reply (fst (atts ! j)) = link_of (take (length posted + j) (posted @ news)) \<and>
          (k + j \<noteq> 1 \<longrightarrow> rec_embed (fst (atts ! j)) = None) \<and>
          (blob = None \<longrightarrow> rec_embed (fst (atts ! j)) = None)))"

definition thread_attempts ::
  "publisher \<Rightarrow> string list \<Rightarrow> string option \<Rightarrow> world \<Rightarrow> (post_record \<times> record_ref option) list" where
  \<comment> \<open>the create requests of one call of \<open>post_thread\<close>\<close>
  "thread_attempts pub posts image_path w =
     create_attempts (new_events w (snd (post_thread pub posts image_path w)))"

definition test_publisher :: publisher where
  "test_publisher =
     \<lparr> handle = ''me.bsky.social'', app_password = ''secret'',
       session = Some [(''did'', ''did:plc:me''), (''accessJwt'', ''token'')],
       did = Some ''did:plc:me'', api_url = ''https://bsky.social/xrpc'' \<rparr>"

definition test_world :: "nat option \<Rightarrow> bool \<Rightarrow> world" where
  \<comment> \<open>A server that refuses the create request number \<open>fail_at\<close> and answers every other
      one with a reference made from the text; uploads succeed or not as \<open>upload_ok\<close> says;
      Gemini answers with a thread of three posts, every other provider with one post.\<close>
  "test_world fail_at upload_ok =
     \<lparr> trace = [],
       clock = (\<lambda>h. \<lparr> year = 2026, month = 11, day = 4, hour = 12, minute = 0,
                       second = length h, microsecond = 0 \<rparr>),
       files = (\<lambda>p. if p = ''/img/Cat.PNG'' then Readable ''PNGDATA'' else Absent),
       create_srv = (\<lambda>h url hs pl.
          if fail_at = Some (length (create_attempts h)) then Conn_error
          else Http 200 (Some [(''uri'', ''at://did:plc:me/app.bsky.feed.post/'' @ rec_text (rec pl)),
                               (''cid'', ''cid-'' @ rec_text (rec pl))])),
       upload_srv = (\<lambda>h url hs d.
          if upload_ok then Http 200 (Some [(''blob'', [(''$type'', ''blob''), (''ref'', ''bafk'')])])
          else Http 500 None),
       llm_srv = (\<lambda>h provider key prompt.
          if provider = ''gemini''
          then Http 200 (Some ''Thread: one (1/3)---two (2/3)--- three (3/3) '')
          else Http 200 (Some ''a single post'')) \<rparr>"

definition ref_of :: "string \<Rightarrow> record_ref" where
  \<comment> \<open>the reference the test server gives to the post with text \<open>t\<close>\<close>
  "ref_of t = \<lparr> uri = ''at://did:plc:me/app.bsky.feed.post/'' @ t, cid = ''cid-'' @ t \<rparr>"

fun successes :: "(post_record \<times> record_ref option) list \<Rightarrow> record_ref list" where
  \<comment> \<open>the references of the create requests that succeeded\<close>
  "successes [] = []"
| "successes ((r, Some x) # atts) = x # successes atts"
| "successes ((r, None) # atts) = successes atts"

definition spec_mime_table :: "(string \<times> string) list" where
  \<comment> \<open>the table as the specification words it, on extensions without the dot\<close>
  "spec_mime_table =
     [(''jpg'', ''image/jpeg''), (''jpeg'', ''image/jpeg''), (''png'', ''image/png''),
      (''gif'', ''image/gif''), (''webp'', ''image/webp'')]"

definition spec_mime :: "string \<Rightarrow> string" where
  "spec_mime e = (case map_of spec_mime_table e of Some m \<Rightarrow> m | None \<Rightarrow> ''image/jpeg'')"

definition file_extension :: "string \<Rightarrow> string" where
  \<comment> \<open>the extension of a path, lower-cased and without its dot\<close>
  "file_extension image_path = py_lower (drop 1 (snd (splitext image_path)))"

fun upload_headers :: "event list \<Rightarrow> headers list" where
  \<comment> \<open>the headers of the upload requests of a trace\<close>
  "upload_headers [] = []"
| "upload_headers (Ev_upload url hs body rsp # es) = hs # upload_headers es"
| "upload_headers (e # es) = upload_headers es"




section \<open>Properties\<close>

lemma create_attempts_append [simp]:
  "create_attempts (xs @ ys) = create_attempts xs @ create_attempts ys"
  by (induction xs rule: create_attempts.induct) simp_all

lemma trace_emit [simp]: "trace (emit e w) = trace w @ [e]"
  by (simp add: emit_def)

lemma trace_sleep [simp]: "trace (sleep n w) = trace w @ [Ev_sleep n]"
  by (simp add: sleep_def)

lemma create_post_cases:
  assumes "create_post pub t rr img w = (res, w')"
  shows "(res = None \<and> w' = w \<and> (\<exists>e. get_headers pub = Inl e)) \<or>
         (\<exists>ev. (\<exists>hs. get_headers pub = Inr hs) \<and> w' = emit ev w \<and>
            create_attempts [ev] = [(build_record t rr img (clock w (trace w)), res)])"
proof (cases "get_headers pub")
  case (Inl e)
  with assms show ?thesis by (simp add: create_post_def Let_def)
next
  case (Inr hs)
  with assms have "\<exists>url pl rsp. w' = emit (Ev_create url hs pl rsp) w \<and>
      rec pl = build_record t rr img (clock w (trace w)) \<and> res = created_ref rsp"
    by (simp add: create_post_def Let_def) (metis payload.select_convs(3))
  then show ?thesis using Inr by auto
qed

lemma link_of_snoc:
  "Some \<lparr> root = \<lparr> uri = uri ((ps @ [r]) ! 0), cid = cid ((ps @ [r]) ! 0) \<rparr>,
          parent = \<lparr> uri = uri r, cid = cid r \<rparr> \<rparr> = link_of (ps @ [r])"
  by (cases ps) simp_all

lemma build_record_sel [simp]:
  "rec_text (build_record t rr img now) = t"
  "rec_reply (build_record t rr img now) = rr"
  "rec_embed (build_record t rr None now) = None"
  by (simp_all add: build_record_def)

lemma loop_obs_fail:
  "loop_obs pub k blob (x # xs) posted [] []"
  if "\<exists>e. get_headers pub = Inl e"
  using that by (auto simp: loop_obs_def)

lemma loop_obs_fail1:
  "loop_obs pub k blob (x # xs) posted []
     [(build_record x (link_of posted) (if k = 1 then blob else None) now, None)]"
  by (auto simp: loop_obs_def)

lemma loop_obs_step:
  assumes "loop_obs pub (Suc k) blob xs (posted @ [r]) news atts"
  shows "loop_obs pub k blob (x # xs) posted (r # news)
           ((build_record x (link_of posted) (if k = 1 then blob else None) now, Some r) # atts)"
  using assms unfolding loop_obs_def
  by (auto simp: nth_Cons split: nat.splits)

lemma thread_loop_obs:
  assumes "thread_loop pub n blob (enumerate k xs) posted rr w = (posted', w')"
    and "rr = link_of posted"
  shows "\<exists>evs news. trace w' = trace w @ evs \<and> posted' = posted @ news \<and>
           loop_obs pub k blob xs posted news (create_attempts evs)"
  using assms
proof (induction xs arbitrary: k posted rr w)
  case Nil
  then show ?case by (simp add: loop_obs_def)
next
  case (Cons x xs)
  obtain res w1 where cp: "create_post pub x rr (if k = 1 then blob else None) w = (res, w1)"
    by (cases "create_post pub x rr (if k = 1 then blob else None) w") auto
  note cases = create_post_cases[OF cp]
  show ?case
  proof (cases res)
    case None
    with Cons.prems cp have eq: "posted' = posted" "w' = w1" by simp_all
    from cases show ?thesis
    proof
      assume "res = None \<and> w1 = w \<and> (\<exists>e. get_headers pub = Inl e)"
      then have "trace w' = trace w @ []" "posted' = posted @ []"
        "loop_obs pub k blob (x # xs) posted [] (create_attempts [])"
        using eq loop_obs_fail by simp_all
      then show ?thesis by blast
    next
      assume "\<exists>ev. (\<exists>hs. get_headers pub = Inr hs) \<and> w1 = emit ev w \<and>
            create_attempts [ev] = [(build_record x rr (if k = 1 then blob else None) (clock w (trace w)), res)]"
      then obtain ev where ev: "w1 = emit ev w"
        "create_attempts [ev] = [(build_record x rr (if k = 1 then blob else None) (clock w (trace w)), res)]"
        by blast
      have "trace w' = trace w @ [ev]" "posted' = posted @ []"
        "loop_obs pub k blob (x # xs) posted [] (create_attempts [ev])"
        using eq ev None Cons.prems(2) loop_obs_fail1 by simp_all
      then show ?thesis by blast
    qed
  next
    case (Some r)
    with cases obtain ev where ev: "w1 = emit ev w"
        "create_attempts [ev] = [(build_record x rr (if k = 1 then blob else None) (clock w (trace w)), Some r)]"
      by auto
    define w2 where "w2 = (if k < n then sleep 2 w1 else w1)"
    have loop: "thread_loop pub n blob (enumerate (Suc k) xs) (posted @ [r]) (link_of (posted @ [r])) w2
                 = (posted', w')"
      using Cons.prems(1) cp Some by (simp add: w2_def Let_def link_of_snoc)
    from Cons.IH[OF loop refl] obtain evs news where ih:
      "trace w' = trace w2 @ evs" "posted' = (posted @ [r]) @ news"
      "loop_obs pub (Suc k) blob xs (posted @ [r]) news (create_attempts evs)"
      by blast
    define pre where "pre = (if k < n then [ev, Ev_sleep 2] else [ev])"
    have t2: "trace w2 = trace w @ pre" and cpre: "create_attempts pre = create_attempts [ev]"
      using ev(1) by (cases ev; simp add: w2_def pre_def)+
    have "trace w' = trace w @ (pre @ evs)" "posted' = posted @ (r # news)"
      using ih t2 by simp_all
    moreover have "loop_obs pub k blob (x # xs) posted (r # news) (create_attempts (pre @ evs))"
      using loop_obs_step[OF ih(3)] cpre ev(2) Cons.prems(2) by simp
    ultimately show ?thesis by blast
  qed
qed

lemma upload_image_trace:
  "\<exists>evs. trace (snd (upload_image pub p w)) = trace w @ evs \<and> create_attempts evs = []"
  by (auto simp: upload_image_def Let_def split: file_state.splits option.splits)

lemma post_thread_obs:
  assumes "post_thread pub posts image_path w = (res, w')" and "posts \<noteq> []"
  shows "\<exists>news. res = (if news = [] then None else Some news) \<and>
           trace w' = trace w @ new_events w w' \<and>
           loop_obs pub 1
             (case image_path of None \<Rightarrow> None
              | Some p \<Rightarrow> if p \<noteq> [] then fst (upload_image pub p w) else None)
             posts [] news (create_attempts (new_events w w'))"
proof -
  define up where "up = (case image_path of None \<Rightarrow> (None, w)
                  | Some p \<Rightarrow> if p \<noteq> [] then upload_image pub p w else (None, w))"
  define blob where "blob = fst up"
  define w1 where "w1 = snd up"
  obtain posted w2 where loop:
    "thread_loop pub (length posts) blob (enumerate 1 posts) [] None w1 = (posted, w2)"
    by (cases "thread_loop pub (length posts) blob (enumerate 1 posts) [] None w1") auto
  have blob_eq: "blob = (case image_path of None \<Rightarrow> None
              | Some p \<Rightarrow> if p \<noteq> [] then fst (upload_image pub p w) else None)"
    by (simp add: blob_def up_def split: option.splits)
  have "\<exists>evs0. trace w1 = trace w @ evs0 \<and> create_attempts evs0 = []"
    using upload_image_trace[of pub _ w]
    by (auto simp: w1_def up_def split: option.splits)
  then obtain evs0 where e0: "trace w1 = trace w @ evs0" "create_attempts evs0 = []" by blast
  from thread_loop_obs[OF loop] obtain evs news where l:
    "trace w2 = trace w1 @ evs" "posted = news"
    "loop_obs pub 1 blob posts [] news (create_attempts evs)"
    by auto
  have up: "up = (blob, w1)" by (simp add: blob_def w1_def)
  have "post_thread pub posts image_path w =
          (if length posted = length posts then (Some posted, w2)
           else (if posted \<noteq> [] then Some posted else None, w2))"
    unfolding post_thread_def up_def[symmetric] up using assms(2) loop by simp
  with assms have res: "res = (if posted = [] then None else Some posted)" and w': "w' = w2"
    by (auto split: if_splits)
  have ne: "new_events w w' = evs0 @ evs"
    using e0 l(1) w' by (simp add: new_events_def)
  show ?thesis
    using res l e0 ne w' blob_eq by (intro exI[of _ news]) simp
qed

lemma link_of_take:
  "0 < i \<Longrightarrow> i \<le> length ps \<Longrightarrow> link_of (take i ps) = Some \<lparr> root = ps ! 0, parent = ps ! (i - 1) \<rparr>"
  by (cases ps; cases i) (auto simp: last_conv_nth min_def take_Suc_conv_app_nth nth_append)

lemma loop_obs_length:
  "loop_obs pub k blob xs posted news atts \<Longrightarrow>
     length news \<le> length atts \<and> length atts \<le> length news + 1"
  unfolding loop_obs_def by (metis length_map length_append_singleton le_refl le_SucI Suc_eq_plus1)

lemma post_thread_empty: "post_thread pub [] image_path w = (None, w)"
  by (simp add: post_thread_def)

lemma post_thread_attempts_obs:
  assumes "posts \<noteq> []"
  shows "\<exists>news. fst (post_thread pub posts image_path w) = (if news = [] then None else Some news) \<and>
           loop_obs pub 1
             (case image_path of None \<Rightarrow> None
              | Some p \<Rightarrow> if p \<noteq> [] then fst (upload_image pub p w) else None)
             posts [] news (thread_attempts pub posts image_path w)"
  using post_thread_obs[OF surjective_pairing assms, of pub image_path w]
  unfolding thread_attempts_def by blast

lemma thread_attempts_empty: "thread_attempts pub [] image_path w = []"
  by (simp add: thread_attempts_def post_thread_empty new_events_def)

text \<open>
  Claim C1 (reply chain invariant). When \<open>post_thread\<close> returns the list \<open>posted\<close>, the
  create request number \<open>i\<close> of the call (\<open>i < length posted\<close>) carries the text of post
  \<open>i\<close>, was answered with the reference \<open>posted ! i\<close>, and its reply link is absent for
  \<open>i = 0\<close> and otherwise has the reference of post 0 as root and the reference of post
  \<open>i - 1\<close> as parent.
\<close>

theorem reply_chain_invariant:
  assumes "fst (post_thread pub posts image_path w) = Some posted"
    and "i < length posted"
  shows "i < length (thread_attempts pub posts image_path w) \<and>
         rec_text (fst (thread_attempts pub posts image_path w ! i)) = posts ! i \<and>
         snd (thread_attempts pub posts image_path w ! i) = Some (posted ! i) \<and>
         rec_reply (fst (thread_attempts pub posts image_path w ! i)) =
           (if i = 0 then None
            else Some \<lparr> root = posted ! 0, parent = posted ! (i - 1) \<rparr>)"
proof -
  define atts where "atts = thread_attempts pub posts image_path w"
  have ne: "posts \<noteq> []" using assms(1) by (auto simp: post_thread_def)
  from post_thread_attempts_obs[OF ne, of pub image_path w] assms(1) obtain blob where
    obs: "loop_obs pub 1 blob posts [] posted atts"
    by (auto simp: atts_def split: if_splits)
  have len: "i < length atts" using loop_obs_length[OF obs] assms(2) by simp
  have tx: "map (rec_text \<circ> fst) atts = take (length atts) posts"
    using obs by (simp add: loop_obs_def)
  have "map (rec_text \<circ> fst) atts ! i = take (length atts) posts ! i" using tx by simp
  then have t1: "rec_text (fst (atts ! i)) = posts ! i" using len by simp
  have "map snd atts ! i = Some (posted ! i)"
    using obs assms(2) by (auto simp: loop_obs_def nth_append)
  then have t2: "snd (atts ! i) = Some (posted ! i)" using len by simp
  have "rec_reply (fst (atts ! i)) = link_of (take i posted)"
    using obs len by (simp add: loop_obs_def)
  then have t3: "rec_reply (fst (atts ! i)) =
           (if i = 0 then None else Some \<lparr> root = posted ! 0, parent = posted ! (i - 1) \<rparr>)"
    using assms(2) by (simp add: link_of_take)
  show ?thesis using len t1 t2 t3 by (simp add: atts_def)
qed

lemmas run_defs = post_thread_def thread_attempts_def new_events_def upload_image_def
  uploaded_blob_def test_publisher_def test_world_def create_post_def get_headers_def
  created_ref_def emit_def sleep_def Let_def ref_of_def build_record_def

theorem reply_chain_invariant_witness:
  "fst (post_thread test_publisher [''a'', ''b'', ''c''] None (test_world None True))
     = Some [ref_of ''a'', ref_of ''b'', ref_of ''c''] \<and>
   rec_text (fst (thread_attempts test_publisher [''a'', ''b'', ''c''] None (test_world None True) ! 2)) = ''c'' \<and>
   rec_reply (fst (thread_attempts test_publisher [''a'', ''b'', ''c''] None (test_world None True) ! 2))
     = Some \<lparr> root = ref_of ''a'', parent = ref_of ''b'' \<rparr>"
proof -
  have h: "fst (post_thread test_publisher [''a'', ''b'', ''c''] None (test_world None True))
     = Some [ref_of ''a'', ref_of ''b'', ref_of ''c'']"
    by (simp add: run_defs)
  show ?thesis
    using h reply_chain_invariant[OF h, of 2] by simp
qed

text \<open>
  Claim C2 (prefix-stop). \<open>atts\<close> are the create requests of one call of \<open>post_thread\<close>
  in order, each with what \<open>create_post\<close> made of the answer, and \<open>posted\<close> is the list
  the call returns (empty for \<open>None\<close>). Request \<open>j\<close> carries the text of post \<open>j\<close>, the
  first \<open>length posted\<close> requests succeeded with the references returned, in order, and
  when the request at index \<open>k\<close> fails then \<open>k = length posted\<close> and it is the last
  request: nothing is attempted at an index greater than \<open>k\<close>.
\<close>

theorem prefix_stop:
  assumes "posted = (case fst (post_thread pub posts image_path w) of None \<Rightarrow> [] | Some ps \<Rightarrow> ps)"
    and "atts = thread_attempts pub posts image_path w"
  shows "length posted \<le> length posts \<and>
         length atts \<le> length posted + 1 \<and>
         map (rec_text \<circ> fst) atts = take (length atts) posts \<and>
         take (length posted) (map snd atts) = map Some posted \<and>
         (\<forall>k < length atts. snd (atts ! k) = None \<longrightarrow>
            k = length posted \<and> k < length posts \<and> length atts = k + 1)"
proof (cases "posts = []")
  case True
  then show ?thesis using assms by (simp add: post_thread_empty thread_attempts_empty)
next
  case False
  from post_thread_attempts_obs[OF False, of pub image_path w] assms obtain blob where
    obs: "loop_obs pub 1 blob posts [] posted atts"
    by (auto split: if_splits)
  have a: "length posted \<le> length posts" using obs by (simp add: loop_obs_def)
  have b: "length atts \<le> length posted + 1" using loop_obs_length[OF obs] by simp
  have c: "map (rec_text \<circ> fst) atts = take (length atts) posts"
    using obs by (simp add: loop_obs_def)
  have shape: "map snd atts = map Some posted \<or>
       (length posted < length posts \<and> map snd atts = map Some posted @ [None])"
    using obs by (simp add: loop_obs_def)
  have d: "take (length posted) (map snd atts) = map Some posted"
    using shape by auto
  have e: "k = length posted \<and> k < length posts \<and> length atts = k + 1"
    if k: "k < length atts" "snd (atts ! k) = None" for k
  proof -
    have nk: "map snd atts ! k = None" using k by simp
    from shape show ?thesis
    proof
      assume s: "map snd atts = map Some posted"
      then have "length atts = length posted" by (metis length_map)
      with nk k s show ?thesis by simp
    next
      assume s: "length posted < length posts \<and> map snd atts = map Some posted @ [None]"
      then have l: "length atts = length posted + 1" by (metis length_map length_append_singleton Suc_eq_plus1)
      have "k = length posted"
      proof (rule ccontr)
        assume "k \<noteq> length posted"
        with k l have "k < length posted" by simp
        with s nk show False by (simp add: nth_append)
      qed
      with s l show ?thesis by simp
    qed
  qed
  show ?thesis using a b c d e by blast
qed


theorem prefix_stop_witness:
  "fst (post_thread test_publisher [''a'', ''b'', ''c''] None (test_world (Some 1) True))
     = Some [ref_of ''a''] \<and>
   map (rec_text \<circ> fst)
     (thread_attempts test_publisher [''a'', ''b'', ''c''] None (test_world (Some 1) True)) = [''a'', ''b''] \<and>
   snd (thread_attempts test_publisher [''a'', ''b'', ''c''] None (test_world (Some 1) True) ! 1) = None \<and>
   length (thread_attempts test_publisher [''a'', ''b'', ''c''] None (test_world (Some 1) True)) = 1 + 1"
proof -
  have r: "fst (post_thread test_publisher [''a'', ''b'', ''c''] None (test_world (Some 1) True))
     = Some [ref_of ''a'']"
    by (simp add: run_defs)
  have a: "thread_attempts test_publisher [''a'', ''b'', ''c''] None (test_world (Some 1) True) =
     [(build_record ''a'' None None (clock (test_world (Some 1) True) []), Some (ref_of ''a'')),
      (build_record ''b'' (Some \<lparr> root = ref_of ''a'', parent = ref_of ''a'' \<rparr>) None
         (clock (test_world (Some 1) True)
            (trace (sleep 2 (snd (create_post test_publisher ''a'' None None (test_world (Some 1) True)))))), None)]"
    by (simp add: run_defs)
  have p: "[ref_of ''a''] = (case fst (post_thread test_publisher [''a'', ''b'', ''c''] None
              (test_world (Some 1) True)) of None \<Rightarrow> [] | Some ps \<Rightarrow> ps)"
    using r by simp
  have k: "(1::nat) < length (thread_attempts test_publisher [''a'', ''b'', ''c''] None (test_world (Some 1) True))"
    "snd (thread_attempts test_publisher [''a'', ''b'', ''c''] None (test_world (Some 1) True) ! 1) = None"
    using a by simp_all
  note ps = prefix_stop[OF p refl]
  from ps k have len:
    "length (thread_attempts test_publisher [''a'', ''b'', ''c''] None (test_world (Some 1) True)) = 1 + 1"
    by blast
  from ps have "map (rec_text \<circ> fst)
      (thread_attempts test_publisher [''a'', ''b'', ''c''] None (test_world (Some 1) True)) =
      take (length (thread_attempts test_publisher [''a'', ''b'', ''c''] None (test_world (Some 1) True)))
        [''a'', ''b'', ''c'']"
    by blast
  with len have "map (rec_text \<circ> fst)
      (thread_attempts test_publisher [''a'', ''b'', ''c''] None (test_world (Some 1) True)) = [''a'', ''b'']"
    by simp
  with r k len show ?thesis by blast
qed


text \<open>
  Claim C3 (image only on the first post). The create request at any index \<open>i > 0\<close> of a
  call of \<open>post_thread\<close> is the one for post \<open>i\<close> and carries no embed, whatever the
  image path and whatever the upload returned.
\<close>

theorem image_only_first:
  assumes "i < length (thread_attempts pub posts image_path w)" and "0 < i"
  shows "rec_text (fst (thread_attempts pub posts image_path w ! i)) = posts ! i \<and>
         rec_embed (fst (thread_attempts pub posts image_path w ! i)) = None"
proof -
  define atts where "atts = thread_attempts pub posts image_path w"
  have ne: "posts \<noteq> []" using assms(1) by (auto simp: thread_attempts_empty)
  from post_thread_attempts_obs[OF ne, of pub image_path w] obtain blob news where
    obs: "loop_obs pub 1 blob posts [] news atts"
    unfolding atts_def by blast
  have len: "i < length atts" using assms(1) by (simp add: atts_def)
  have tx: "map (rec_text \<circ> fst) atts = take (length atts) posts"
    using obs by (simp add: loop_obs_def)
  have "map (rec_text \<circ> fst) atts ! i = take (length atts) posts ! i" using tx by simp
  then have t1: "rec_text (fst (atts ! i)) = posts ! i" using len by simp
  have t2: "rec_embed (fst (atts ! i)) = None"
    using obs len assms(2) by (simp add: loop_obs_def)
  show ?thesis using t1 t2 by (simp add: atts_def)
qed

theorem image_only_first_witness:
  "rec_embed (fst (thread_attempts test_publisher [''a'', ''b''] (Some ''/img/Cat.PNG'')
      (test_world None True) ! 0)) \<noteq> None \<and>
   rec_text (fst (thread_attempts test_publisher [''a'', ''b''] (Some ''/img/Cat.PNG'')
      (test_world None True) ! 1)) = ''b'' \<and>
   rec_embed (fst (thread_attempts test_publisher [''a'', ''b''] (Some ''/img/Cat.PNG'')
      (test_world None True) ! 1)) = None"
proof -
  have l: "length (thread_attempts test_publisher [''a'', ''b''] (Some ''/img/Cat.PNG'')
      (test_world None True)) = 2"
    by (simp add: run_defs)
  have f: "rec_embed (fst (thread_attempts test_publisher [''a'', ''b''] (Some ''/img/Cat.PNG'')
      (test_world None True) ! 0)) \<noteq> None"
    by (simp add: run_defs)
  have i: "1 < length (thread_attempts test_publisher [''a'', ''b''] (Some ''/img/Cat.PNG'')
      (test_world None True))"
    using l by simp
  show ?thesis
    using f image_only_first[OF i] by simp
qed






lemma successes_general:
  "map snd atts = map Some news @ rest \<Longrightarrow> set rest \<subseteq> {None} \<Longrightarrow> successes atts = news"
proof (induction atts arbitrary: news rest rule: successes.induct)
  case 1
  then show ?case by simp
next
  case (2 r x atts)
  then show ?case by (cases news) auto
next
  case (3 r atts)
  then show ?case by (cases news; cases rest) auto
qed

lemma successes_shape:
  assumes "map snd atts = map Some news \<or> map snd atts = map Some news @ [None]"
  shows "successes atts = news"
  using assms successes_general[of atts news "[]"] successes_general[of atts news "[None]"]
  by auto

text \<open>
  Claim C6 (what the result reports), as amended. \<open>successes\<close> are the references that
  the create requests of the call were answered with. \<open>post_thread\<close> returns exactly
  that list when it is not empty, and \<open>None\<close>, not an empty list, when no post was
  created.
\<close>

theorem thread_result_reports_successes:
  "fst (post_thread pub posts image_path w) =
     (if successes (thread_attempts pub posts image_path w) = [] then None
      else Some (successes (thread_attempts pub posts image_path w))) \<and>
   length (successes (thread_attempts pub posts image_path w)) \<le> length posts"
proof (cases "posts = []")
  case True
  then show ?thesis
    by (simp add: post_thread_empty thread_attempts_empty)
next
  case False
  from post_thread_attempts_obs[OF False, of pub image_path w] obtain blob news where
    res: "fst (post_thread pub posts image_path w) = (if news = [] then None else Some news)" and
    obs: "loop_obs pub 1 blob posts [] news (thread_attempts pub posts image_path w)"
    by blast
  have "successes (thread_attempts pub posts image_path w) = news"
    using obs by (intro successes_shape) (auto simp: loop_obs_def)
  moreover have "length news \<le> length posts" using obs by (simp add: loop_obs_def)
  ultimately show ?thesis using res by simp
qed

text \<open>
  Claim C6 as stated asks for a list whose length is the number of created posts, 0
  included. When the only create request fails, no post is created and the result is
  \<open>None\<close>.
\<close>

theorem thread_result_counterexample:
  "fst (post_thread test_publisher [''a''] None (test_world (Some 0) True)) = None \<and>
   length (successes (thread_attempts test_publisher [''a''] None (test_world (Some 0) True))) = 0"
  by (simp add: run_defs)

text \<open>
  Claim C4 (empty thread), as amended. Called with no posts, \<open>post_thread\<close> returns
  \<open>None\<close> and leaves the world as it found it: no upload, no create request, no sleep.
\<close>

theorem empty_thread_rejected:
  "post_thread pub [] image_path w = (None, w) \<and> new_events w (snd (post_thread pub [] image_path w)) = []"
  by (simp add: post_thread_def new_events_def)

text \<open>
  Claim C4 as stated makes the rejection a failure of its own kind. The \<open>None\<close> of the
  empty thread is the value that a thread whose first post cannot be created returns.
\<close>

theorem empty_thread_counterexample:
  "fst (post_thread test_publisher [] None (test_world (Some 0) True)) =
   fst (post_thread test_publisher [''a''] None (test_world (Some 0) True))"
  by (simp add: run_defs)

lemma py_rfind_nth:
  assumes "c \<in> set s"
  shows "0 \<le> py_rfind s c \<and> nat (py_rfind s c) < length s \<and> s ! nat (py_rfind s c) = c"
proof -
  define k where "k = length (takeWhile (\<lambda>x. x \<noteq> c) (rev s))"
  have "c \<in> set (rev s)" using assms by simp
  then have "\<not> (\<forall>x \<in> set (rev s). x \<noteq> c)" by blast
  then have "takeWhile (\<lambda>x. x \<noteq> c) (rev s) \<noteq> rev s"
    by (simp add: takeWhile_eq_all_conv)
  then have "k \<noteq> length (rev s)" unfolding k_def
    by (metis takeWhile_eq_take take_all le_refl)
  moreover have "k \<le> length (rev s)" unfolding k_def by (rule length_takeWhile_le)
  ultimately have k: "k < length (rev s)" by simp
  then have kl: "k < length s" by simp
  have "rev s ! k = c"
    using nth_length_takeWhile[of "\<lambda>x. x \<noteq> c" "rev s"] k unfolding k_def by simp
  then have "s ! (length s - Suc k) = c" using kl by (simp add: rev_nth)
  moreover have "py_rfind s c = int (length s) - 1 - int k"
    using assms by (simp add: py_rfind_def k_def)
  moreover have "nat (int (length s) - 1 - int k) = length s - Suc k" using kl by simp
  ultimately show ?thesis using kl by simp
qed

lemma py_rfind_absent: "c \<notin> set s \<Longrightarrow> py_rfind s c = - 1"
  by (simp add: py_rfind_def)

lemma py_rfind_lower_bound: "- 1 \<le> py_rfind s c"
proof -
  have "length (takeWhile (\<lambda>x. x \<noteq> c) (rev s)) \<le> length (rev s)"
    by (rule length_takeWhile_le)
  then show ?thesis by (simp add: py_rfind_def)
qed

lemma splitext_dot:
  "snd (splitext p) = [] \<or> (\<exists>r. snd (splitext p) = CHR ''.'' # r)"
proof (cases "CHR ''.'' \<in> set p")
  case False
  then have "\<not> py_rfind p (CHR ''.'') > py_rfind p (CHR ''/'')"
    using py_rfind_lower_bound[of p "CHR ''/''"] by (simp add: py_rfind_absent)
  then show ?thesis by (simp add: splitext_def Let_def)
next
  case True
  from py_rfind_nth[OF True] have
    n: "nat (py_rfind p (CHR ''.'')) < length p" "p ! nat (py_rfind p (CHR ''.'')) = CHR ''.''"
    by simp_all
  then have "drop (nat (py_rfind p (CHR ''.''))) p =
      CHR ''.'' # drop (Suc (nat (py_rfind p (CHR ''.'')))) p"
    by (metis Cons_nth_drop_Suc)
  then show ?thesis by (simp add: splitext_def Let_def)
qed

lemma py_lower_dot: "py_lower (CHR ''.'' # r) = CHR ''.'' # py_lower r"
  by (simp add: py_lower_def py_lower_char_def)

lemma mimetype_of_spec: "mimetype_of image_path = spec_mime (file_extension image_path)"
proof -
  from splitext_dot[of image_path] show ?thesis
  proof
    assume "snd (splitext image_path) = []"
    then show ?thesis
      by (simp add: mimetype_of_def file_extension_def spec_mime_def mimetypes_def
          spec_mime_table_def py_lower_def)
  next
    assume "\<exists>r. snd (splitext image_path) = CHR ''.'' # r"
    then obtain r where r: "snd (splitext image_path) = CHR ''.'' # r" by blast
    show ?thesis
      by (simp add: mimetype_of_def file_extension_def spec_mime_def mimetypes_def
          spec_mime_table_def r py_lower_dot)
  qed
qed

text \<open>
  Claim C7 (MIME type). \<open>spec_mime\<close> is the table of the specification, on extensions
  without their dot; \<open>file_extension\<close> is the lower-cased extension of the path. The
  content type computed by \<open>upload_image\<close> is the table's entry for the extension, or
  \<open>image/jpeg\<close>, and every upload request of the call carries it.
\<close>

theorem mime_derivation:
  "mimetype_of image_path = spec_mime (file_extension image_path) \<and>
   (\<forall>hs \<in> set (upload_headers (new_events w (snd (upload_image pub image_path w)))).
      map_of hs ''Content-Type'' = Some (spec_mime (file_extension image_path)))"
  by (auto simp: mimetype_of_spec[symmetric] upload_image_def new_events_def emit_def Let_def
      split: file_state.splits option.splits)

theorem mime_derivation_witness:
  "upload_headers (new_events (test_world None True)
      (snd (upload_image test_publisher ''/img/Cat.PNG'' (test_world None True))))
     = [[(''Authorization'', ''Bearer token''), (''Content-Type'', ''image/png'')]] \<and>
   file_extension ''/img/Cat.PNG'' = ''png'' \<and>
   spec_mime (file_extension ''/img/Cat.PNG'') = ''image/png''"
proof -
  have e: "snd (splitext ''/img/Cat.PNG'') = ''.PNG''"
    by (simp add: splitext_def py_rfind_def Let_def)
  have x: "file_extension ''/img/Cat.PNG'' = ''png''"
    unfolding file_extension_def e by code_simp
  have m: "mimetype_of ''/img/Cat.PNG'' = ''image/png''"
    using mime_derivation[of "''/img/Cat.PNG''"] x
    by (simp add: spec_mime_def spec_mime_table_def)
  have u: "upload_headers (new_events (test_world None True)
      (snd (upload_image test_publisher ''/img/Cat.PNG'' (test_world None True))))
     = [[(''Authorization'', ''Bearer token''), (''Content-Type'', ''image/png'')]]"
    by (simp add: run_defs m)
  show ?thesis using u x m mime_derivation[of "''/img/Cat.PNG''"] by simp
qed

lemma digit_char_digit: "digit_char d \<in> set ''0123456789''"
  unfolding digit_char_def by (rule nth_mem) simp

lemma decimal_digits: "set (decimal n) \<subseteq> set ''0123456789''"
proof (induction n rule: decimal.induct)
  case (1 n)
  show ?case
  proof (cases "n < 10")
    case True
    then show ?thesis using digit_char_digit[of n] by (subst decimal.simps) simp
  next
    case False
    then show ?thesis using 1 digit_char_digit[of n] by (subst decimal.simps) simp
  qed
qed

lemma zero_pad_digits: "set (zero_pad k n) \<subseteq> set ''0123456789''"
  using decimal_digits[of n] by (auto simp: zero_pad_def)

lemma zero_pad_no_plus: "CHR ''+'' \<notin> set (zero_pad k n)"
  using zero_pad_digits[of k n] by auto

lemma isoformat_naive_no_plus: "CHR ''+'' \<notin> set (isoformat_naive dt)"
  by (simp add: isoformat_naive_def zero_pad_no_plus)

lemma py_replace_offset:
  "CHR ''+'' \<notin> set x \<Longrightarrow> py_replace ''+00:00'' ''Z'' (x @ ''+00:00'') = x @ ''Z''"
proof (induction x)
  case Nil
  show ?case by (simp add: startswith_def)
next
  case (Cons c x)
  then have "\<not> startswith (c # x @ ''+00:00'') ''+00:00''"
    by (auto simp: startswith_def)
  with Cons show ?case by simp
qed

lemma py_in_hd: "py_in sub s \<Longrightarrow> sub \<noteq> [] \<Longrightarrow> hd sub \<in> set s"
proof (induction s)
  case Nil
  then show ?case by simp
next
  case (Cons c s)
  then show ?case by (cases sub) (auto simp: startswith_def)
qed

lemma created_at_eq: "created_at now = isoformat_naive now @ ''Z''"
  by (simp add: created_at_def isoformat_utc_def py_replace_offset isoformat_naive_no_plus)

lemma create_post_attempts:
  "create_attempts (new_events w (snd (create_post pub text reply_to img w))) =
     (case get_headers pub of
        Inl e \<Rightarrow> []
      | Inr hs \<Rightarrow> [(build_record text reply_to img (clock w (trace w)),
                    fst (create_post pub text reply_to img w))])"
  by (simp add: create_post_def new_events_def Let_def split: sum.splits)

text \<open>
  Claim C8 (timestamp and reply link). The \<open>createdAt\<close> of the record built by
  \<open>create_post\<close> is the date and time of the clock reading followed by \<open>Z\<close>; it ends
  with \<open>Z\<close> and does not contain \<open>+00:00\<close>. The reply link of the record is the one
  passed in, and the record sent in the create request is this record.
\<close>

theorem created_at_format:
  "rec_createdAt (build_record text reply_to img now) = isoformat_naive now @ ''Z'' \<and>
   endswith (rec_createdAt (build_record text reply_to img now)) ''Z'' \<and>
   \<not> py_in ''+00:00'' (rec_createdAt (build_record text reply_to img now)) \<and>
   rec_reply (build_record text reply_to img now) = reply_to \<and>
   (\<forall>a \<in> set (create_attempts (new_events w (snd (create_post pub text reply_to img w)))).
      fst a = build_record text reply_to img (clock w (trace w)))"
proof -
  have a: "rec_createdAt (build_record text reply_to img now) = isoformat_naive now @ ''Z''"
    by (simp add: build_record_def created_at_eq)
  have b: "endswith (isoformat_naive now @ ''Z'') ''Z''"
    by (simp add: endswith_def)
  have c: "\<not> py_in ''+00:00'' (isoformat_naive now @ ''Z'')"
  proof
    assume "py_in ''+00:00'' (isoformat_naive now @ ''Z'')"
    from py_in_hd[OF this] show False using isoformat_naive_no_plus[of now] by simp
  qed
  have d: "\<forall>a \<in> set (create_attempts (new_events w (snd (create_post pub text reply_to img w)))).
      fst a = build_record text reply_to img (clock w (trace w))"
    by (simp add: create_post_attempts split: sum.splits)
  show ?thesis using a b c d by simp
qed

theorem created_at_format_witness:
  "map (rec_createdAt \<circ> fst) (create_attempts (new_events (test_world None True)
      (snd (create_post test_publisher ''hello'' None None (test_world None True)))))
     = [''2026-11-04T12:00:00Z'']"
proof -
  have n: "isoformat_naive (clock (test_world None True) (trace (test_world None True)))
     = ''2026-11-04T12:00:00''"
    by (simp add: test_world_def isoformat_naive_def zero_pad_def digit_char_def decimal.simps)
  have l: "create_attempts (new_events (test_world None True)
      (snd (create_post test_publisher ''hello'' None None (test_world None True)))) =
     [(build_record ''hello'' None None (clock (test_world None True) (trace (test_world None True))),
       fst (create_post test_publisher ''hello'' None None (test_world None True)))]"
    by (simp add: create_post_attempts get_headers_def test_publisher_def)
  show ?thesis
    using created_at_format[of "''hello''" None None
        "clock (test_world None True) (trace (test_world None True))"
        "test_world None True" test_publisher] n l
    by simp
qed

lemma try_provider_some:
  "try_provider g prompt w = (Inr (Some ps), w1) \<Longrightarrow> 3 \<le> length ps"
  by (auto simp: try_provider_def Let_def split: if_splits prod.splits sum.splits option.splits)

lemma generate_loop_some:
  "fst (generate_loop prompt retry_count attempts g w) = Inr (Some ps) \<Longrightarrow> 3 \<le> length ps"
proof (induction prompt retry_count attempts g w rule: generate_loop.induct)
  case (1 prompt retry_count attempts g w)
  show ?case
  proof (cases "int attempts < retry_count \<and> attempts < length (provider_list g)")
    case False
    with "1.prems" show ?thesis by (simp add: generate_loop.simps)
  next
    case True
    obtain r w1 where tp: "try_provider g prompt w = (r, w1)"
      by (cases "try_provider g prompt w") auto
    show ?thesis
    proof (cases r)
      case (Inl e)
      with "1.prems" True tp show ?thesis by (simp add: generate_loop.simps)
    next
      case (Inr x)
      show ?thesis
      proof (cases x)
        case None
        with "1.prems" True tp Inr have
          "fst (generate_loop prompt retry_count (attempts + 1)
               (g\<lparr>current_index := (current_index g + 1) mod length (provider_list g)\<rparr>)
               (sleep 1 w1)) = Inr (Some ps)"
          by (simp add: generate_loop.simps)
        with "1.IH"[OF True tp[symmetric] Inr None] show ?thesis by simp
      next
        case (Some posts)
        with "1.prems" True tp Inr have "posts = ps" by (simp add: generate_loop.simps)
        with try_provider_some tp Inr Some show ?thesis by blast
      qed
    qed
  qed
qed

lemma try_provider_wf:
  assumes "wf_generator g" and "current_index g < length (provider_list g)"
  shows "\<exists>r. fst (try_provider g prompt w) = Inr r"
proof -
  define provider where "provider = provider_list g ! current_index g"
  have "provider \<in> set (map fst (providers g))"
    using assms unfolding provider_def wf_generator_def by (metis nth_mem)
  then have key: "map_of (providers g) provider \<noteq> None"
    by (simp add: map_of_eq_None_iff)
  show ?thesis
  proof (cases "provider = ''groq''")
    case True
    with key show ?thesis using assms(2)
      by (auto simp: try_provider_def call_groq_def provider_def[symmetric] Let_def
          split: option.splits)
  next
    case False
    note ng = this
    show ?thesis
    proof (cases "provider = ''gemini''")
      case True
      with key ng show ?thesis using assms(2)
        by (auto simp: try_provider_def call_gemini_def provider_def[symmetric] Let_def
            split: option.splits)
    next
      case False
      with ng show ?thesis using assms(2)
        by (simp add: try_provider_def provider_def[symmetric] Let_def)
    qed
  qed
qed

lemma wf_generator_rotate:
  "wf_generator g \<Longrightarrow> provider_list g \<noteq> [] \<Longrightarrow>
     wf_generator (g\<lparr>current_index := (current_index g + 1) mod length (provider_list g)\<rparr>)"
proof -
  assume wf: "wf_generator g" and ne: "provider_list g \<noteq> []"
  from ne have "(current_index g + 1) mod length (provider_list g) < length (provider_list g)"
    by simp
  with wf show ?thesis unfolding wf_generator_def by simp
qed

lemma wf_generator_init: "wf_generator (init_generator ps)"
  by (cases ps) (simp_all add: wf_generator_def init_generator_def)

lemma generate_loop_wf:
  "wf_generator g \<Longrightarrow> \<exists>r. fst (generate_loop prompt retry_count attempts g w) = Inr r"
proof (induction prompt retry_count attempts g w rule: generate_loop.induct)
  case (1 prompt retry_count attempts g w)
  show ?case
  proof (cases "int attempts < retry_count \<and> attempts < length (provider_list g)")
    case False
    then show ?thesis by (subst generate_loop.simps) auto
  next
    case True
    then have ne: "provider_list g \<noteq> []" by auto
    with "1.prems" have idx: "current_index g < length (provider_list g)"
      unfolding wf_generator_def by blast
    obtain r w1 where tp: "try_provider g prompt w = (r, w1)"
      by (cases "try_provider g prompt w") auto
    from try_provider_wf[OF "1.prems" idx, of prompt w] tp obtain x where r: "r = Inr x"
      by auto
    show ?thesis
    proof (cases x)
      case None
      from "1.IH"[OF True tp[symmetric] r None wf_generator_rotate[OF "1.prems" ne]]
      show ?thesis using True tp r None by (simp add: generate_loop.simps)
    next
      case (Some posts)
      then show ?thesis using True tp r by (simp add: generate_loop.simps)
    qed
  qed
qed

text \<open>
  Claim C9 (bounds of the parser's output). Every post that \<open>_parse_thread\<close> returns
  is non-empty and at most 300 characters long, whatever the content.
\<close>

theorem parse_thread_bounds:
  "\<forall>post \<in> set (parse_thread content). post \<noteq> [] \<and> length post \<le> 300"
  by (simp add: parse_thread_def Let_def)

theorem parse_thread_bounds_witness:
  "parse_thread ''Thread: one (1/3)---two (2/3)--- three (3/3) '' =
     [''one (1/3)'', ''two (2/3)'', ''three (3/3)''] \<and>
   ''three (3/3)'' \<noteq> [] \<and> length ''three (3/3)'' \<le> 300"
proof -
  have p: "parse_thread ''Thread: one (1/3)---two (2/3)--- three (3/3) '' =
     [''one (1/3)'', ''two (2/3)'', ''three (3/3)'']"
    by code_simp
  have "''three (3/3)'' \<in> set (parse_thread ''Thread: one (1/3)---two (2/3)--- three (3/3) '')"
    by (simp add: p)
  with parse_thread_bounds[of "''Thread: one (1/3)---two (2/3)--- three (3/3) ''"]
  have "''three (3/3)'' \<noteq> [] \<and> length ''three (3/3)'' \<le> 300" by blast
  with p show ?thesis by blast
qed

text \<open>
  Claim C10 (at least three posts). A list returned by \<open>generate_thread\<close> has at least
  three posts, for every generator, retry count and world. For a generator as
  \<open>__init__\<close> builds it and \<open>generate_thread\<close> leaves it, no exception escapes: the
  result is \<open>None\<close> or such a list.
\<close>

theorem generate_thread_minimum:
  "(\<forall>ps. fst (generate_thread g topic retry_count w) = Inr (Some ps) \<longrightarrow> 3 \<le> length ps) \<and>
   (wf_generator g \<longrightarrow>
      fst (generate_thread g topic retry_count w) = Inr None \<or>
      (\<exists>ps. fst (generate_thread g topic retry_count w) = Inr (Some ps) \<and> 3 \<le> length ps))"
proof -
  have a: "\<forall>ps. fst (generate_thread g topic retry_count w) = Inr (Some ps) \<longrightarrow> 3 \<le> length ps"
    unfolding generate_thread_def using generate_loop_some by blast
  have b: "fst (generate_thread g topic retry_count w) = Inr None \<or>
      (\<exists>ps. fst (generate_thread g topic retry_count w) = Inr (Some ps) \<and> 3 \<le> length ps)"
    if "wf_generator g"
  proof -
    from generate_loop_wf[OF that] obtain r where
      r: "fst (generate_thread g topic retry_count w) = Inr r"
      unfolding generate_thread_def by blast
    show ?thesis using r a by (cases r) auto
  qed
  show ?thesis using a b by blast
qed

theorem generate_thread_minimum_witness:
  "wf_generator (init_generator [(''groq'', ''k1''), (''gemini'', ''k2'')]) \<and>
   fst (generate_thread (init_generator [(''groq'', ''k1''), (''gemini'', ''k2'')]) ''tea'' 2
          (test_world None True))
     = Inr (Some [''one (1/3)'', ''two (2/3)'', ''three (3/3)'']) \<and>
   3 \<le> length [''one (1/3)'', ''two (2/3)'', ''three (3/3)'']"
proof -
  have p: "parse_thread ''Thread: one (1/3)---two (2/3)--- three (3/3) '' =
     [''one (1/3)'', ''two (2/3)'', ''three (3/3)'']"
    by code_simp
  have q: "parse_thread ''a single post'' = [''a single post'']"
    by code_simp
  have r: "fst (generate_thread (init_generator [(''groq'', ''k1''), (''gemini'', ''k2'')]) ''tea'' 2
          (test_world None True))
     = Inr (Some [''one (1/3)'', ''two (2/3)'', ''three (3/3)''])"
    by (simp add: generate_thread_def generate_loop.simps try_provider_def call_groq_def
        call_gemini_def llm_content_def init_generator_def test_world_def emit_def sleep_def
        p q Let_def)
  show ?thesis
    using r wf_generator_init generate_thread_minimum[of
        "init_generator [(''groq'', ''k1''), (''gemini'', ''k2'')]" "''tea''" 2 "test_world None True"]
    by simp
qed

end
